theory Spec2Isabelle
  imports Main
begin

section \<open>The find/replace widget of porcupine (plugins/find.py)\<close>

text \<open>
  The \<open>Finder\<close> class keeps no data of its own about matches: every match is a range of
  the text widget's tag \<open>find_highlight\<close>, the selection is the range of the tag \<open>sel\<close>,
  and the cursor is the mark \<open>insert\<close>. The embedding therefore carries the part of the
  toolkit's text widget that find.py reads and writes.

  Positions: the toolkit's indices (\<open>'1.0'\<close>, \<open>'2.7'\<close>, ...) are read as character
  offsets from the start of the buffer, \<open>'1.0'\<close> being offset 0 and \<open>'end'\<close> the length of
  the buffer. The search primitive's "not found" result (the empty string) is \<open>None\<close>.

  Tags: the toolkit attaches a tag to characters, and \<open>tag_ranges\<close> reports the maximal
  runs of tagged characters. Two ranges of one tag that touch or overlap are one range.
\<close>

subsection \<open>The text widget\<close>

datatype tagname = find_highlight | sel

datatype button_state = enabled | disabled

type_synonym tchar = "char \<times> tagname set"

text \<open>
  The state of one \<open>Finder\<close>: the text widget's characters with their tags (\<open>chars\<close>) and
  its \<open>insert\<close> mark, the contents of the two entries, the status label's text and the
  state of the "Replace this match" button.
\<close>

record finder =
  chars :: "tchar list"
  insert_mark :: nat
  find_entry :: string
  replace_entry :: string
  statuslabel :: string
  replace_this_button :: button_state

definition buffer :: "finder \<Rightarrow> string" where
  "buffer w = map fst (chars w)"

definition end_index :: "finder \<Rightarrow> nat" where
  "end_index w = length (chars w)"

text \<open>Index arithmetic \<open>'%s + %d chars'\<close>: the toolkit stops at the end of the buffer.\<close>

definition plus_chars :: "finder \<Rightarrow> nat \<Rightarrow> nat \<Rightarrow> nat" where
  "plus_chars w i n = min (i + n) (end_index w)"

text \<open>\<open>tag_add(t, s, e)\<close> and \<open>tag_remove(t, s, e)\<close> on the characters at \<open>s \<le> i < e\<close>.\<close>

definition tag_add :: "tagname \<Rightarrow> nat \<Rightarrow> nat \<Rightarrow> finder \<Rightarrow> finder" where
  "tag_add t s e w =
     w\<lparr>chars := map (\<lambda>i. if s \<le> i \<and> i < e
                              then (fst (chars w ! i), insert t (snd (chars w ! i)))
                              else chars w ! i)
                     [0..<length (chars w)]\<rparr>"

definition tag_remove :: "tagname \<Rightarrow> nat \<Rightarrow> nat \<Rightarrow> finder \<Rightarrow> finder" where
  "tag_remove t s e w =
     w\<lparr>chars := map (\<lambda>i. if s \<le> i \<and> i < e
                              then (fst (chars w ! i), snd (chars w ! i) - {t})
                              else chars w ! i)
                     [0..<length (chars w)]\<rparr>"

text \<open>The maximal runs of \<open>True\<close> in a list of flags, the first flag being position \<open>i\<close>.\<close>

function runs :: "nat \<Rightarrow> bool list \<Rightarrow> (nat \<times> nat) list" where
  "runs i [] = []"
| "runs i (False # bs) = runs (Suc i) bs"
| "runs i (True # bs) =
     (i, Suc i + length (takeWhile (\<lambda>b. b) bs))
       # runs (Suc i + length (takeWhile (\<lambda>b. b) bs)) (dropWhile (\<lambda>b. b) bs)"
  by pat_completeness auto
termination
  by (relation "measure (\<lambda>(i, bs). length bs)") (auto simp: less_Suc_eq_le length_dropWhile_le)

definition flags :: "tagname \<Rightarrow> finder \<Rightarrow> bool list" where
  "flags t w = map (\<lambda>c. t \<in> snd c) (chars w)"

text \<open>
  \<open>tag_ranges(t)\<close>: the toolkit returns the flat tuple \<open>(start1, end1, start2, end2, ...)\<close>;
  here it is the list of pairs, which is what \<open>_get_match_ranges\<close> builds from it with
  \<open>zip\<close>.
\<close>

definition tag_ranges :: "tagname \<Rightarrow> finder \<Rightarrow> (nat \<times> nat) list" where
  "tag_ranges t w = runs 0 (flags t w)"

text \<open>
  \<open>search(pattern, index, 'end')\<close>: the first position at or after \<open>index\<close> where the
  pattern stands in the buffer (forwards, exact, no wrap-around since a stop index is given).
\<close>

definition search :: "string \<Rightarrow> nat \<Rightarrow> finder \<Rightarrow> nat option" where
  "search pattern index w =
     List.find (\<lambda>i. take (length pattern) (drop i (buffer w)) = pattern)
               [index..<end_index w]"

text \<open>\<open>mark_set('insert', i)\<close>.\<close>

definition mark_set_insert :: "nat \<Rightarrow> finder \<Rightarrow> finder" where
  "mark_set_insert i w = w\<lparr>insert_mark := min i (end_index w)\<rparr>"

text \<open>
  \<open>replace(s, e, new)\<close>: the characters of \<open>s \<le> i < e\<close> are deleted and \<open>new\<close> is inserted
  at \<open>s\<close>. As no tag list is given, the inserted characters receive the tags that both the
  character before and the character after the insertion point carry. The \<open>insert\<close> mark
  stays where it is before the range, goes behind the new text when it stands at \<open>s\<close>
  (the mark's gravity is to the right), keeps its offset inside the range as far as the
  new text reaches, and moves with the text from \<open>e\<close> on. \<open>_replace_this_match\<close>, the
  only caller, sets the mark itself right after the call (line 216), and it passes a match
  range, for which \<open>s < e\<close> (the toolkit refuses \<open>e < s\<close>).
\<close>

definition neighbour_tags :: "tchar list \<Rightarrow> nat \<Rightarrow> nat \<Rightarrow> tagname set" where
  "neighbour_tags cs s e =
     (if 0 < s \<and> e < length cs then snd (cs ! (s - 1)) \<inter> snd (cs ! e) else {})"

definition replace :: "nat \<Rightarrow> nat \<Rightarrow> string \<Rightarrow> finder \<Rightarrow> finder" where
  "replace s e new w =
     (let cs = chars w; p = insert_mark w
      in w\<lparr>chars := take s cs @ map (\<lambda>c. (c, neighbour_tags cs s e)) new @ drop e cs,
            insert_mark := (if p < s then p
                            else if p = s then s + length new
                            else if p < e then s + min (p - s) (length new)
                            else (p - (e - s)) + length new)\<rparr>)"

subsection \<open>The Finder's methods\<close>

text \<open>\<open>_get_match_ranges\<close> (lines 94-99): the ranges of \<open>find_highlight\<close> as pairs.\<close>

definition get_match_ranges :: "finder \<Rightarrow> (nat \<times> nat) list" where
  "get_match_ranges w = tag_ranges find_highlight w"

text \<open>
  \<open>_update_replace_button\<close> (lines 103-113). Unpacking \<open>tag_ranges('sel')\<close> into
  \<open>start, end\<close> raises ValueError unless the tuple has exactly two elements, that is
  unless \<open>sel\<close> has exactly one range.
\<close>

definition update_replace_button :: "finder \<Rightarrow> finder" where
  "update_replace_button w =
     (case tag_ranges sel w of
        [(start, stop)] \<Rightarrow>
          if (start, stop) \<in> set (get_match_ranges w)
          then w\<lparr>replace_this_button := enabled\<rparr>
          else w\<lparr>replace_this_button := disabled\<rparr>
      | _ \<Rightarrow> w\<lparr>replace_this_button := disabled\<rparr>)"

text \<open>
  The scan loop of \<open>highlight_all_matches\<close> (lines 124-146). Its variables are
  \<open>start_index\<close> and \<open>count\<close>; the widget is carried along because the body tags the match.
\<close>

record scan =
  widget :: finder
  start_index :: nat
  count :: nat

text \<open>Lines 124-125: the loop's variables before the first pass.\<close>

definition scan_start :: "finder \<Rightarrow> scan" where
  "scan_start w = \<lparr>widget = w, start_index = 0, count = 0\<rparr>"

text \<open>Lines 132-135: where this iteration's search starts.\<close>

definition search_arg :: "scan \<Rightarrow> nat" where
  "search_arg sc =
     (if start_index sc = 0 \<and> count sc = 0 then start_index sc
      else plus_chars (widget sc) (start_index sc) 1)"

text \<open>One pass through the body of \<open>while True\<close>; \<open>None\<close> is the \<open>break\<close>.\<close>

definition scan_step :: "string \<Rightarrow> scan \<Rightarrow> scan option" where
  "scan_step looking4 sc =
     (case search looking4 (search_arg sc) (widget sc) of
        None \<Rightarrow> None
      | Some i \<Rightarrow>
          Some \<lparr>widget = tag_add find_highlight i
                            (plus_chars (widget sc) i (length looking4)) (widget sc),
                start_index = i,
                count = count sc + 1\<rparr>)"

text \<open>
  The end of the match that a pass found, as line 145 passes it to \<open>tag_add\<close>:
  \<open>start_index + len(looking4)\<close> characters.
\<close>

definition match_end :: "string \<Rightarrow> scan \<Rightarrow> nat" where
  "match_end looking4 sc = plus_chars (widget sc) (start_index sc) (length looking4)"

text \<open>
  The loop itself. Every pass searches strictly later than the one before and a match
  starts inside the buffer, so the distance from the search position to the end of the
  buffer decreases.
\<close>

function scan_loop :: "string \<Rightarrow> scan \<Rightarrow> scan" where
  "scan_loop looking4 sc =
     (case scan_step looking4 sc of
        None \<Rightarrow> sc
      | Some sc' \<Rightarrow> scan_loop looking4 sc')"
  by pat_completeness auto
termination scan_loop
proof (relation "measure (\<lambda>(looking4, sc). Suc (end_index (widget sc)) - search_arg sc)")
  show "wf (measure (\<lambda>(looking4, sc). Suc (end_index (widget sc)) - search_arg sc))"
    by simp
next
  fix looking4 :: string and sc sc' :: scan
  assume step: "scan_step looking4 sc = Some sc'"
  then obtain i where found: "search looking4 (search_arg sc) (widget sc) = Some i"
    and sc': "sc' = \<lparr>widget = tag_add find_highlight i
                        (plus_chars (widget sc) i (length looking4)) (widget sc),
                      start_index = i, count = count sc + 1\<rparr>"
    by (auto simp: scan_step_def split: option.splits)
  from found have "i \<in> set [search_arg sc..<end_index (widget sc)]"
    unfolding search_def find_Some_iff by (metis nth_mem)
  then have bounds: "search_arg sc \<le> i" "i < end_index (widget sc)"
    by simp_all
  have len: "end_index (widget sc') = end_index (widget sc)"
    by (simp add: sc' end_index_def tag_add_def)
  have "search_arg sc' = Suc i"
    using bounds by (simp add: sc' search_arg_def plus_chars_def end_index_def tag_add_def)
  with bounds len
  show "((looking4, sc'), (looking4, sc))
          \<in> measure (\<lambda>(looking4, sc). Suc (end_index (widget sc)) - search_arg sc)"
    by simp
qed

declare scan_loop.simps [simp del]

text \<open>The \<open>%d\<close> of the status line: a count in decimal.\<close>

fun show_nat :: "nat \<Rightarrow> string" where
  "show_nat n =
     (if n < 10 then [''0123456789'' ! n]
      else show_nat (n div 10) @ [''0123456789'' ! (n mod 10)])"

declare show_nat.simps [simp del]

text \<open>
  \<open>highlight_all_matches\<close> (lines 115-154). With an empty search string the method
  returns after clearing the highlights and the status label, before the loop and before
  \<open>_update_replace_button\<close>.
\<close>

definition highlight_all_matches :: "finder \<Rightarrow> finder" where
  "highlight_all_matches w =
     (let w1 = tag_remove find_highlight 0 (end_index w) w;
          looking4 = find_entry w1
      in if looking4 = [] then w1\<lparr>statuslabel := []\<rparr>
         else
           let sc = scan_loop looking4 (scan_start w1);
               w2 = update_replace_button (widget sc)
           in if count sc = 0 then w2\<lparr>statuslabel := ''Found no matches :(''\<rparr>
              else if count sc = 1 then w2\<lparr>statuslabel := ''Found 1 match.''\<rparr>
              else w2\<lparr>statuslabel := ''Found '' @ show_nat (count sc) @ '' matches.''\<rparr>)"

text \<open>
  \<open>_select_range\<close> (lines 156-161). \<open>tag_lower\<close> and \<open>see\<close> change what is drawn and
  which part of the buffer is scrolled into view, not the tags, the mark or the text.
\<close>

definition select_range :: "nat \<Rightarrow> nat \<Rightarrow> finder \<Rightarrow> finder" where
  "select_range start stop w =
     mark_set_insert start (tag_add sel start stop (tag_remove sel 0 (end_index w) w))"

text \<open>
  The \<open>for ... else\<close> of \<open>_go_to_next_match\<close> (lines 165-176): \<open>None\<close> when there are no
  pairs, else the first pair that starts after the cursor, else \<open>pairs[0]\<close>.
\<close>

definition next_pair :: "(nat \<times> nat) list \<Rightarrow> nat \<Rightarrow> (nat \<times> nat) option" where
  "next_pair pairs cursor =
     (if pairs = [] then None
      else case List.find (\<lambda>(start, stop). start > cursor) pairs of
             Some p \<Rightarrow> Some p
           | None \<Rightarrow> Some (pairs ! 0))"

text \<open>\<open>_go_to_next_match\<close> (lines 163-179).\<close>

definition go_to_next_match :: "finder \<Rightarrow> finder" where
  "go_to_next_match w =
     (case next_pair (get_match_ranges w) (insert_mark w) of
        None \<Rightarrow> w\<lparr>statuslabel := ''No matches found!''\<rparr>
      | Some (start, stop) \<Rightarrow>
          update_replace_button ((select_range start stop w)\<lparr>statuslabel := []\<rparr>))"

text \<open>
  The \<open>for ... else\<close> of \<open>_go_to_previous_match\<close> (lines 184-193): the pairs are tried
  from the last to the first, and \<open>pairs[-1]\<close> is taken when none starts before the cursor.
\<close>

definition previous_pair :: "(nat \<times> nat) list \<Rightarrow> nat \<Rightarrow> (nat \<times> nat) option" where
  "previous_pair pairs cursor =
     (if pairs = [] then None
      else case List.find (\<lambda>(start, stop). start < cursor) (rev pairs) of
             Some p \<Rightarrow> Some p
           | None \<Rightarrow> Some (last pairs))"

text \<open>\<open>_go_to_previous_match\<close> (lines 182-197).\<close>

definition go_to_previous_match :: "finder \<Rightarrow> finder" where
  "go_to_previous_match w =
     (case previous_pair (get_match_ranges w) (insert_mark w) of
        None \<Rightarrow> w\<lparr>statuslabel := ''No matches found!''\<rparr>
      | Some (start, stop) \<Rightarrow>
          update_replace_button ((select_range start stop w)\<lparr>statuslabel := []\<rparr>))"

text \<open>
  The check at the head of \<open>_replace_this_match\<close> (lines 200-203): the selection is one
  range and that range is one of the match ranges. \<open>None\<close> is the ValueError.
\<close>

definition selected_match :: "finder \<Rightarrow> (nat \<times> nat) option" where
  "selected_match w =
     (case tag_ranges sel w of
        [(start, stop)] \<Rightarrow>
          if (start, stop) \<in> set (get_match_ranges w) then Some (start, stop) else None
      | _ \<Rightarrow> None)"

text \<open>Lines 217-219: the status of \<open>_go_to_next_match\<close> is rewritten when it found nothing.\<close>

definition no_more_matches :: "finder \<Rightarrow> finder" where
  "no_more_matches w =
     (if statuslabel w = ''No matches found!'' then w\<lparr>statuslabel := ''No more matches.''\<rparr>
      else w)"

text \<open>The status text of lines 205-206.\<close>

definition click_first :: string where
  \<open>click_first = ''Click "Previous match" or "Next match" first.''\<close>

text \<open>\<open>_replace_this_match\<close> (lines 199-219).\<close>

definition replace_this_match :: "finder \<Rightarrow> finder" where
  "replace_this_match w =
     (case selected_match w of
        None \<Rightarrow> w\<lparr>statuslabel := click_first\<rparr>
      | Some (start, stop) \<Rightarrow>
          (let w1 = tag_remove find_highlight start stop w;
               w2 = update_replace_button w1;
               w3 = replace start stop (replace_entry w2) w2;
               w4 = mark_set_insert start w3;
               w5 = go_to_next_match w4
           in no_more_matches w5))"

text \<open>A freshly opened widget showing the text \<open>s\<close>, nothing tagged, the cursor at the start.\<close>

definition fresh :: "string \<Rightarrow> string \<Rightarrow> string \<Rightarrow> finder" where
  "fresh s looking4 replacement =
     \<lparr>chars = map (\<lambda>c. (c, {})) s, insert_mark = 0, find_entry = looking4,
       replace_entry = replacement, statuslabel = [], replace_this_button = disabled\<rparr>"

section \<open>Properties\<close>

subsection \<open>Ranges of a tag\<close>

lemma take_drop_While_length:
  "length (takeWhile P bs) + length (dropWhile P bs) = length bs"
  by (induction bs) simp_all
lemma runs_lower: "p \<in> set (runs i bs) \<Longrightarrow> i \<le> fst p \<and> fst p < snd p \<and> snd p \<le> i + length bs"
proof (induction i bs arbitrary: p rule: runs.induct)
  case (1 i) then show ?case by simp
next
  case (2 i bs)
  from "2.prems" have "p \<in> set (runs (Suc i) bs)" by simp
  from "2.IH"[OF this] show ?case by simp
next
  case (3 i bs)
  let ?k = "length (takeWhile (\<lambda>b. b) bs)"
  note len = take_drop_While_length[of "\<lambda>b. b" bs]
  from "3.prems" consider "p = (i, Suc i + ?k)"
    | "p \<in> set (runs (Suc i + ?k) (dropWhile (\<lambda>b. b) bs))" by auto
  then show ?case
  proof cases
    case 1 with len show ?thesis by simp
  next
    case 2
    from "3.IH"[OF this] len show ?thesis by simp
  qed
qed

lemma runs_after_dropWhile:
  assumes "q \<in> set (runs k (dropWhile (\<lambda>b. b) bs))"
  shows "k < fst q"
proof (cases "dropWhile (\<lambda>b. b) bs")
  case Nil with assms show ?thesis by simp
next
  case (Cons b rest)
  have "\<not> b" using hd_dropWhile[of "\<lambda>b. b" bs] Cons by simp
  with Cons assms have "q \<in> set (runs (Suc k) rest)" by simp
  from runs_lower[OF this] show ?thesis by simp
qed

lemma runs_sorted: "sorted_wrt (\<lambda>p q. snd p < fst q) (runs i bs)"
proof (induction i bs rule: runs.induct)
  case (1 i) show ?case by simp
next
  case (2 i bs) then show ?case by simp
next
  case (3 i bs)
  then show ?case using runs_after_dropWhile by simp
qed

lemma runs_replicate_False: "runs i (replicate n False) = []"
  by (induction n arbitrary: i) simp_all

lemma runs_False_append: "runs i (replicate n False @ bs) = runs (i + n) bs"
  by (induction n arbitrary: i) simp_all

lemma runs_single: "runs i (replicate (Suc k) True @ replicate m False) = [(i, Suc i + k)]"
  by (simp add: takeWhile_append dropWhile_append runs_replicate_False)

lemma runs_start_tagged: "(a, b) \<in> set (runs i bs) \<Longrightarrow> bs ! (a - i)"
proof (induction i bs rule: runs.induct)
  case (1 i) then show ?case by simp
next
  case (2 i bs)
  from "2.prems" have mem: "(a, b) \<in> set (runs (Suc i) bs)" by simp
  from runs_lower[OF mem] have "i < a" by simp
  then have "a - i = Suc (a - Suc i)" by simp
  with "2.IH"[OF mem] show ?case by simp
next
  case (3 i bs)
  show ?case
  proof (cases "a = i")
    case True then show ?thesis by simp
  next
    case False
    let ?k = "length (takeWhile (\<lambda>b. b) bs)"
    from False "3.prems" have mem: "(a, b) \<in> set (runs (Suc i + ?k) (dropWhile (\<lambda>b. b) bs))"
      by simp
    have dd: "dropWhile (\<lambda>b. b) bs = drop ?k bs" by (simp add: dropWhile_eq_drop)
    from runs_lower[OF mem] have ge: "Suc i + ?k \<le> a"
      and lt: "a < Suc i + ?k + length (dropWhile (\<lambda>b. b) bs)" by simp_all
    from "3.IH"[OF mem] have "drop ?k bs ! (a - (Suc i + ?k))" unfolding dd .
    moreover have "?k + (a - (Suc i + ?k)) \<le> length bs"
      using ge lt take_drop_While_length[of "\<lambda>b. b" bs] by simp
    ultimately have "bs ! (?k + (a - (Suc i + ?k)))" by (simp add: nth_drop)
    moreover have "?k + (a - (Suc i + ?k)) = a - Suc i" using ge by simp
    moreover have "a - i = Suc (a - Suc i)" using ge by simp
    ultimately show ?thesis by simp
  qed
qed

subsection \<open>Tagging leaves the text, the marks and the other tags alone\<close>

lemma end_index_tag_add [simp]: "end_index (tag_add t s e w) = end_index w"
  by (simp add: end_index_def tag_add_def)

lemma end_index_tag_remove [simp]: "end_index (tag_remove t s e w) = end_index w"
  by (simp add: end_index_def tag_remove_def)

lemma buffer_tag_add [simp]: "buffer (tag_add t s e w) = buffer w"
  by (rule nth_equalityI) (simp_all add: buffer_def tag_add_def)

lemma buffer_tag_remove [simp]: "buffer (tag_remove t s e w) = buffer w"
  by (rule nth_equalityI) (simp_all add: buffer_def tag_remove_def)

lemma insert_mark_tag_add [simp]: "insert_mark (tag_add t s e w) = insert_mark w"
  by (simp add: tag_add_def)

lemma insert_mark_tag_remove [simp]: "insert_mark (tag_remove t s e w) = insert_mark w"
  by (simp add: tag_remove_def)

lemma flags_tag_add_other: "t' \<noteq> t \<Longrightarrow> flags t' (tag_add t s e w) = flags t' w"
  by (rule nth_equalityI) (simp_all add: flags_def tag_add_def)

lemma flags_tag_remove_other: "t' \<noteq> t \<Longrightarrow> flags t' (tag_remove t s e w) = flags t' w"
  by (rule nth_equalityI) (simp_all add: flags_def tag_remove_def)

lemma flags_remove_all:
  "flags t (tag_remove t 0 (end_index w) w) = replicate (end_index w) False"
  by (rule nth_equalityI) (simp_all add: flags_def tag_remove_def end_index_def)

lemma chars_tag_add_nth:
  "i < length (chars w) \<Longrightarrow>
   chars (tag_add t s e w) ! i =
     (if s \<le> i \<and> i < e then (fst (chars w ! i), insert t (snd (chars w ! i)))
      else chars w ! i)"
  by (simp add: tag_add_def)

lemma chars_tag_remove_nth:
  "i < length (chars w) \<Longrightarrow>
   chars (tag_remove t s e w) ! i =
     (if s \<le> i \<and> i < e then (fst (chars w ! i), snd (chars w ! i) - {t})
      else chars w ! i)"
  by (simp add: tag_remove_def)

lemma length_chars_tag_add [simp]: "length (chars (tag_add t s e w)) = length (chars w)"
  by (simp add: tag_add_def)

lemma length_chars_tag_remove [simp]: "length (chars (tag_remove t s e w)) = length (chars w)"
  by (simp add: tag_remove_def)

lemma nth_band:
  "i < n \<Longrightarrow> s < e \<Longrightarrow> e \<le> n \<Longrightarrow>
   (replicate s False @ replicate (e - s) True @ replicate (n - e) False) ! i
     = (s \<le> i \<and> i < e)"
  by (auto simp: nth_append)

lemma flags_select:
  assumes "s < e" "e \<le> end_index w"
  shows "flags sel (tag_add sel s e (tag_remove sel 0 (end_index w) w))
           = replicate s False @ replicate (e - s) True @ replicate (end_index w - e) False"
proof (rule nth_equalityI)
  show "length (flags sel (tag_add sel s e (tag_remove sel 0 (end_index w) w)))
          = length (replicate s False @ replicate (e - s) True @ replicate (end_index w - e) False)"
    using assms by (simp add: flags_def end_index_def)
next
  fix i
  assume "i < length (flags sel (tag_add sel s e (tag_remove sel 0 (end_index w) w)))"
  then have i: "i < length (chars w)"
    by (simp add: flags_def)
  have "flags sel (tag_add sel s e (tag_remove sel 0 (end_index w) w)) ! i = (s \<le> i \<and> i < e)"
    using i by (simp add: flags_def chars_tag_add_nth chars_tag_remove_nth end_index_def)
  also have "\<dots> = (replicate s False @ replicate (e - s) True
                      @ replicate (end_index w - e) False) ! i"
    using nth_band[of i "end_index w" s e] i assms by (simp add: end_index_def)
  finally
  show "flags sel (tag_add sel s e (tag_remove sel 0 (end_index w) w)) ! i
          = (replicate s False @ replicate (e - s) True @ replicate (end_index w - e) False) ! i" .
qed

lemma tag_ranges_bounds:
  "p \<in> set (tag_ranges t w) \<Longrightarrow> fst p < snd p \<and> snd p \<le> end_index w"
  using runs_lower[of p 0 "flags t w"] by (simp add: tag_ranges_def flags_def end_index_def)

lemma tag_ranges_sorted: "sorted_wrt (\<lambda>p q. snd p < fst q) (tag_ranges t w)"
  by (simp add: tag_ranges_def runs_sorted)

lemma tag_ranges_remove_all [simp]: "tag_ranges t (tag_remove t 0 (end_index w) w) = []"
  by (simp add: tag_ranges_def flags_remove_all runs_replicate_False)

lemma tag_ranges_select:
  assumes "s < e" "e \<le> end_index w"
  shows "tag_ranges sel (select_range s e w) = [(s, e)]"
proof -
  obtain k where k: "e - s = Suc k" using assms by (cases "e - s") simp_all
  have "flags sel (select_range s e w)
          = flags sel (tag_add sel s e (tag_remove sel 0 (end_index w) w))"
    by (simp add: select_range_def mark_set_insert_def flags_def)
  also have "\<dots> = replicate s False @ replicate (Suc k) True @ replicate (end_index w - e) False"
    using flags_select[OF assms] unfolding k .
  finally have "tag_ranges sel (select_range s e w)
      = runs 0 (replicate s False @ replicate (Suc k) True @ replicate (end_index w - e) False)"
    by (simp only: tag_ranges_def)
  also have "\<dots> = [(s, Suc s + k)]"
    unfolding runs_False_append runs_single by simp
  finally show ?thesis using k assms by simp
qed

lemma match_ranges_select [simp]:
  "get_match_ranges (select_range s e w) = get_match_ranges w"
  by (simp add: get_match_ranges_def tag_ranges_def select_range_def mark_set_insert_def
      flags_def flags_tag_add_other[unfolded flags_def] flags_tag_remove_other[unfolded flags_def])

lemma insert_mark_select:
  "s \<le> end_index w \<Longrightarrow> insert_mark (select_range s e w) = s"
  by (simp add: select_range_def mark_set_insert_def)

lemma buffer_select [simp]: "buffer (select_range s e w) = buffer w"
  by (simp add: select_range_def mark_set_insert_def buffer_def
      buffer_tag_add[unfolded buffer_def] buffer_tag_remove[unfolded buffer_def])

lemma update_replace_button_eq:
  "update_replace_button w = w\<lparr>replace_this_button := replace_this_button (update_replace_button w)\<rparr>"
  by (simp add: update_replace_button_def split: list.splits prod.splits)

lemma chars_update_replace_button [simp]: "chars (update_replace_button w) = chars w"
  by (subst update_replace_button_eq) simp

lemma insert_mark_update_replace_button [simp]:
  "insert_mark (update_replace_button w) = insert_mark w"
  by (subst update_replace_button_eq) simp

lemma statuslabel_update_replace_button [simp]:
  "statuslabel (update_replace_button w) = statuslabel w"
  by (subst update_replace_button_eq) simp

lemma replace_entry_update_replace_button [simp]:
  "replace_entry (update_replace_button w) = replace_entry w"
  by (subst update_replace_button_eq) simp

lemma button_enabled_iff:
  "replace_this_button (update_replace_button w) = enabled \<longleftrightarrow> selected_match w \<noteq> None"
  by (simp add: update_replace_button_def selected_match_def split: list.splits prod.splits)

lemma match_ranges_cong:
  "chars w' = chars w \<Longrightarrow> get_match_ranges w' = get_match_ranges w"
  by (simp add: get_match_ranges_def tag_ranges_def flags_def)

lemma tag_ranges_cong:
  "chars w' = chars w \<Longrightarrow> tag_ranges t w' = tag_ranges t w"
  by (simp add: tag_ranges_def flags_def)

lemma buffer_cong: "chars w' = chars w \<Longrightarrow> buffer w' = buffer w"
  by (simp add: buffer_def)

subsection \<open>The scan loop\<close>

lemma scan_step_SomeD:
  assumes "scan_step looking4 sc = Some sc'"
  shows "search_arg sc \<le> start_index sc'"
    and "start_index sc' < end_index (widget sc)"
    and "take (length looking4) (drop (start_index sc') (buffer (widget sc))) = looking4"
    and "count sc' = Suc (count sc)"
    and "widget sc' = tag_add find_highlight (start_index sc') (match_end looking4 sc') (widget sc)"
    and "end_index (widget sc') = end_index (widget sc)"
    and "search_arg sc' = Suc (start_index sc')"
proof -
  from assms obtain i where found: "search looking4 (search_arg sc) (widget sc) = Some i"
    and sc': "sc' = \<lparr>widget = tag_add find_highlight i
                        (plus_chars (widget sc) i (length looking4)) (widget sc),
                      start_index = i, count = count sc + 1\<rparr>"
    by (auto simp: scan_step_def split: option.splits)
  from found obtain j where j: "j < length [search_arg sc..<end_index (widget sc)]"
    and i: "i = [search_arg sc..<end_index (widget sc)] ! j"
    and pat: "take (length looking4) (drop i (buffer (widget sc))) = looking4"
    unfolding search_def find_Some_iff by blast
  from j i have bounds: "search_arg sc \<le> i" "i < end_index (widget sc)"
    by simp_all
  show "search_arg sc \<le> start_index sc'" using bounds by (simp add: sc')
  show "start_index sc' < end_index (widget sc)" using bounds by (simp add: sc')
  show "take (length looking4) (drop (start_index sc') (buffer (widget sc))) = looking4"
    using pat by (simp add: sc')
  show "count sc' = Suc (count sc)" by (simp add: sc')
  show "widget sc' = tag_add find_highlight (start_index sc') (match_end looking4 sc') (widget sc)"
    by (simp add: sc' match_end_def plus_chars_def)
  show "end_index (widget sc') = end_index (widget sc)" by (simp add: sc')
  show "search_arg sc' = Suc (start_index sc')"
    using bounds by (simp add: sc' search_arg_def plus_chars_def)
qed

lemma match_inside:
  assumes "take (length looking4) (drop i (buffer w)) = looking4"
  shows "i + length looking4 \<le> end_index w \<or> looking4 = []"
proof -
  have "length (take (length looking4) (drop i (buffer w))) = length looking4"
    using assms by simp
  then show ?thesis by (cases looking4) (auto simp: buffer_def end_index_def)
qed

text \<open>
  Claim C1, as amended. After a pass has found a match, the next pass searches from one
  character past the \<^emph>\<open>start\<close> of that match: \<open>search_arg\<close> of the new loop state is
  \<open>start_index + 1\<close>, where \<open>start_index\<close> is a position at or after the previous search
  position at which the search string stands, and the match ends \<open>len(looking4)\<close>
  characters after its start.
\<close>

theorem scan_restarts_after_match_start:
  assumes "scan_step looking4 sc = Some sc'"
  shows "search_arg sc' = start_index sc' + 1
       \<and> search_arg sc \<le> start_index sc'
       \<and> take (length looking4) (drop (start_index sc') (buffer (widget sc))) = looking4
       \<and> match_end looking4 sc' = start_index sc' + length looking4"
proof -
  note d = scan_step_SomeD[OF assms]
  from match_inside[OF d(3)] d(2) d(6)
  have "match_end looking4 sc' = start_index sc' + length looking4"
    by (auto simp: match_end_def plus_chars_def)
  with d show ?thesis by simp
qed

theorem scan_restarts_after_match_start_witness:
  "scan_step ''ab'' (scan_start (fresh ''abab'' ''ab'' [])) \<noteq> None
   \<and> search_arg (the (scan_step ''ab'' (scan_start (fresh ''abab'' ''ab'' [])))) = 1
   \<and> start_index (the (scan_step ''ab'' (scan_start (fresh ''abab'' ''ab'' [])))) = 0"
proof -
  have "scan_step ''ab'' (scan_start (fresh ''abab'' ''ab'' [])) \<noteq> None"
    by code_simp
  then obtain sc' where s: "scan_step ''ab'' (scan_start (fresh ''abab'' ''ab'' [])) = Some sc'"
    by blast
  from scan_restarts_after_match_start[OF s]
  have "search_arg sc' = start_index sc' + 1" by simp
  moreover have "start_index sc' = 0"
  proof -
    have "map_option start_index (scan_step ''ab'' (scan_start (fresh ''abab'' ''ab'' []))) = Some 0"
      by code_simp
    with s show ?thesis by simp
  qed
  ultimately show ?thesis using s by simp
qed

text \<open>
  Claim C1, as stated, asks for the next search to start at \<open>match_end + 1\<close>. In the
  buffer \<open>abab\<close> with the search string \<open>ab\<close> the first pass finds the match from 0 to 2,
  and the next search starts at 1, not at 3.
\<close>

theorem scan_restart_counterexample:
  "map_option start_index (scan_step ''ab'' (scan_start (fresh ''abab'' ''ab'' []))) = Some 0
   \<and> map_option (match_end ''ab'') (scan_step ''ab'' (scan_start (fresh ''abab'' ''ab'' []))) = Some 2
   \<and> map_option search_arg (scan_step ''ab'' (scan_start (fresh ''abab'' ''ab'' []))) = Some 1
   \<and> map_option search_arg (scan_step ''ab'' (scan_start (fresh ''abab'' ''ab'' [])))
       \<noteq> map_option (\<lambda>sc. match_end ''ab'' sc + 1)
            (scan_step ''ab'' (scan_start (fresh ''abab'' ''ab'' [])))"
  by code_simp

lemma scan_loop_count:
  "count (scan_loop looking4 sc) \<le> count sc + (Suc (end_index (widget sc)) - search_arg sc)"
proof (induction looking4 sc rule: scan_loop.induct)
  case (1 looking4 sc)
  show ?case
  proof (cases "scan_step looking4 sc")
    case None
    then show ?thesis by (simp add: scan_loop.simps)
  next
    case (Some sc')
    note d = scan_step_SomeD[OF Some]
    from "1.IH"[OF Some] d Some show ?thesis
      by (simp add: scan_loop.simps[of looking4 sc])
  qed
qed

text \<open>
  Claim C3. \<open>scan_loop\<close> is a total function (its termination is proved where it is
  defined), for every buffer and every search string, empty or not. Whenever a pass is
  followed by another one, the later pass searches from a strictly larger position, which
  is still inside the buffer, and the buffer's length does not change. So the number of
  passes that find a match is bounded by the distance from the first search position to
  the end of the buffer, and the loop stops in a state where the search finds nothing.
\<close>

theorem scan_loop_terminates:
  "(\<forall>sc'. scan_step looking4 sc = Some sc' \<longrightarrow>
       search_arg sc < search_arg sc' \<and> search_arg sc' \<le> end_index (widget sc')
       \<and> end_index (widget sc') = end_index (widget sc))
   \<and> count (scan_loop looking4 sc) \<le> count sc + (Suc (end_index (widget sc)) - search_arg sc)
   \<and> scan_step looking4 (scan_loop looking4 sc) = None"
proof (intro conjI allI impI)
  fix sc' assume s: "scan_step looking4 sc = Some sc'"
  note d = scan_step_SomeD[OF s]
  from d show "search_arg sc < search_arg sc'" by simp
  from d show "search_arg sc' \<le> end_index (widget sc')" by simp
  from d show "end_index (widget sc') = end_index (widget sc)" by simp
next
  show "count (scan_loop looking4 sc) \<le> count sc + (Suc (end_index (widget sc)) - search_arg sc)"
    by (rule scan_loop_count)
next
  show "scan_step looking4 (scan_loop looking4 sc) = None"
  proof (induction looking4 sc rule: scan_loop.induct)
    case (1 looking4 sc)
    then show ?case by (cases "scan_step looking4 sc") (simp_all add: scan_loop.simps[of looking4 sc])
  qed
qed

theorem scan_loop_terminates_witness:
  "scan_step ''ab'' (scan_start (fresh ''abab'' ''ab'' [])) \<noteq> None
   \<and> search_arg (scan_start (fresh ''abab'' ''ab'' []))
       < search_arg (the (scan_step ''ab'' (scan_start (fresh ''abab'' ''ab'' []))))
   \<and> count (scan_loop ''ab'' (scan_start (fresh ''abab'' ''ab'' []))) \<le> 5"
proof -
  let ?S = "scan_start (fresh ''abab'' ''ab'' [])"
  have "scan_step ''ab'' ?S \<noteq> None"
    by code_simp
  then obtain sc' where s: "scan_step ''ab'' ?S = Some sc'"
    by blast
  from scan_loop_terminates[of "''ab''" ?S] s
  have "search_arg ?S < search_arg sc'"
    and "count (scan_loop ''ab'' ?S) \<le> count ?S + (Suc (end_index (widget ?S)) - search_arg ?S)"
    by blast+
  moreover have "count ?S + (Suc (end_index (widget ?S)) - search_arg ?S) = 5"
    by (simp add: scan_start_def fresh_def end_index_def search_arg_def)
  ultimately show ?thesis using s by simp
qed

subsection \<open>highlight_all_matches\<close>

text \<open>
  Claim C9. With an empty search string \<open>highlight_all_matches\<close> leaves no match range,
  whatever the buffer holds and whatever was highlighted before. It is not an error: the
  status label is cleared, and the text and the cursor are as before.
\<close>

theorem highlight_empty_search:
  assumes "find_entry w = []"
  shows "get_match_ranges (highlight_all_matches w) = []
       \<and> statuslabel (highlight_all_matches w) = []
       \<and> buffer (highlight_all_matches w) = buffer w
       \<and> insert_mark (highlight_all_matches w) = insert_mark w"
proof -
  have fe: "find_entry (tag_remove find_highlight 0 (end_index w) w) = []"
    using assms by (simp add: tag_remove_def)
  then have eq: "highlight_all_matches w
      = (tag_remove find_highlight 0 (end_index w) w)\<lparr>statuslabel := []\<rparr>"
    by (simp add: highlight_all_matches_def Let_def)
  have "get_match_ranges (highlight_all_matches w)
      = get_match_ranges (tag_remove find_highlight 0 (end_index w) w)"
    unfolding eq by (rule match_ranges_cong) simp
  then have "get_match_ranges (highlight_all_matches w) = []"
    by (simp add: get_match_ranges_def)
  moreover have "buffer (highlight_all_matches w) = buffer w"
    unfolding eq using buffer_tag_remove[of find_highlight 0 "end_index w" w]
    by (simp add: buffer_def)
  ultimately show ?thesis by (simp add: eq)
qed

theorem highlight_empty_search_witness:
  "find_entry (tag_add find_highlight 1 3 (fresh ''hello'' [] [])) = []
   \<and> get_match_ranges (tag_add find_highlight 1 3 (fresh ''hello'' [] [])) = [(1, 3)]
   \<and> get_match_ranges (highlight_all_matches (tag_add find_highlight 1 3 (fresh ''hello'' [] []))) = []
   \<and> statuslabel (highlight_all_matches (tag_add find_highlight 1 3 (fresh ''hello'' [] []))) = []"
proof -
  have a: "find_entry (tag_add find_highlight 1 3 (fresh ''hello'' [] [])) = []"
    by (simp add: tag_add_def fresh_def)
  have b: "get_match_ranges (tag_add find_highlight 1 3 (fresh ''hello'' [] [])) = [(1, 3)]"
    by code_simp
  from highlight_empty_search[OF a] a b show ?thesis by simp
qed

lemma match_ranges_strict: "sorted_wrt (\<lambda>p q. fst p < fst q) (get_match_ranges w)"
proof -
  have gaps: "sorted_wrt (\<lambda>p q. snd p < fst q) (get_match_ranges w)"
    by (simp add: get_match_ranges_def tag_ranges_sorted)
  have "fst p < fst q"
    if "p \<in> set (get_match_ranges w)" and "snd p < fst q" for p q
  proof -
    from that(1) have "fst p < snd p"
      using tag_ranges_bounds[of p find_highlight w] by (simp add: get_match_ranges_def)
    with that(2) show ?thesis by simp
  qed
  then show ?thesis
    using sorted_wrt_mono_rel[OF _ gaps, of "\<lambda>p q. fst p < fst q"] by blast
qed

text \<open>
  Claim C7. For every buffer and every non-empty search string, the match ranges that
  \<open>highlight_all_matches\<close> leaves are sorted ascending by their start positions, and no
  two of them start at the same position.
\<close>

theorem match_ranges_sorted_distinct:
  assumes "find_entry w \<noteq> []"
  shows "sorted (map fst (get_match_ranges (highlight_all_matches w)))
       \<and> distinct (map fst (get_match_ranges (highlight_all_matches w)))"
proof -
  have "sorted_wrt (<) (map fst (get_match_ranges (highlight_all_matches w)))"
    using match_ranges_strict[of "highlight_all_matches w"] by (simp add: sorted_wrt_map)
  then show ?thesis by (simp add: strict_sorted_iff)
qed

theorem match_ranges_sorted_distinct_witness:
  "find_entry (fresh ''abc abc'' ''abc'' []) \<noteq> []
   \<and> get_match_ranges (highlight_all_matches (fresh ''abc abc'' ''abc'' [])) = [(0, 3), (4, 7)]
   \<and> sorted (map fst (get_match_ranges (highlight_all_matches (fresh ''abc abc'' ''abc'' []))))
   \<and> distinct (map fst (get_match_ranges (highlight_all_matches (fresh ''abc abc'' ''abc'' []))))"
proof -
  have a: "find_entry (fresh ''abc abc'' ''abc'' []) \<noteq> []"
    by (simp add: fresh_def)
  have b: "get_match_ranges (highlight_all_matches (fresh ''abc abc'' ''abc'' [])) = [(0, 3), (4, 7)]"
    by code_simp
  from match_ranges_sorted_distinct[OF a] a b show ?thesis by blast
qed

text \<open>
  Claim C2 asks that no two matches overlap and that each match is as long as the search
  string. The file's own FIXME (line 4) names the input on which this breaks: the search
  string \<open>asa\<close> in the buffer \<open>asasasasa\<close>. The first pass tags the match from 0 to 3 and
  the second pass finds a match at 2, inside the first one; the four tagged ranges overlap,
  so the widget reports the single range from 0 to 9, nine characters long for a search
  string of three, while the status line counts four matches.
\<close>

theorem overlapping_matches_merge:
  "get_match_ranges (highlight_all_matches (fresh ''asasasasa'' ''asa'' [])) = [(0, 9)]
   \<and> map_option start_index (scan_step ''asa'' (scan_start (fresh ''asasasasa'' ''asa'' [])))
       = Some 0
   \<and> map_option (match_end ''asa'') (scan_step ''asa'' (scan_start (fresh ''asasasasa'' ''asa'' [])))
       = Some 3
   \<and> map_option start_index
        (Option.bind (scan_step ''asa'' (scan_start (fresh ''asasasasa'' ''asa'' [])))
           (scan_step ''asa''))
       = Some 2
   \<and> statuslabel (highlight_all_matches (fresh ''asasasasa'' ''asa'' [])) = ''Found 4 matches.''"
  by code_simp

subsection \<open>replace_this_match without a selected match\<close>

text \<open>
  Claim C5. When the selection is not exactly one range that is one of the match ranges
  (no selection, several selected ranges, no match ranges, or a selection that is not a
  match), \<open>_replace_this_match\<close> only sets the status label to the text that asks for
  "Previous match" or "Next match" first: the buffer, the match ranges, the selection and
  the cursor are as before the call.
\<close>

theorem replace_invalid_selection:
  assumes "\<not> (\<exists>p. tag_ranges sel w = [p] \<and> p \<in> set (get_match_ranges w))"
  shows "replace_this_match w = w\<lparr>statuslabel := click_first\<rparr>
       \<and> statuslabel (replace_this_match w) = click_first
       \<and> buffer (replace_this_match w) = buffer w
       \<and> get_match_ranges (replace_this_match w) = get_match_ranges w
       \<and> tag_ranges sel (replace_this_match w) = tag_ranges sel w
       \<and> insert_mark (replace_this_match w) = insert_mark w"
proof -
  from assms have "selected_match w = None"
    by (auto simp: selected_match_def split: list.splits)
  then have eq: "replace_this_match w = w\<lparr>statuslabel := click_first\<rparr>"
    by (simp add: replace_this_match_def)
  show ?thesis unfolding eq
    by (simp add: buffer_def get_match_ranges_def tag_ranges_def flags_def)
qed

theorem replace_invalid_selection_witness:
  "get_match_ranges (fresh ''hello'' ''xyz'' ''abc'') = []
   \<and> replace_this_match (fresh ''hello'' ''xyz'' ''abc'')
       = (fresh ''hello'' ''xyz'' ''abc'')\<lparr>statuslabel := click_first\<rparr>
   \<and> buffer (replace_this_match (fresh ''hello'' ''xyz'' ''abc'')) = ''hello''"
proof -
  have a: "get_match_ranges (fresh ''hello'' ''xyz'' ''abc'') = []"
    by code_simp
  then have "\<not> (\<exists>p. tag_ranges sel (fresh ''hello'' ''xyz'' ''abc'') = [p]
                    \<and> p \<in> set (get_match_ranges (fresh ''hello'' ''xyz'' ''abc'')))"
    by simp
  from replace_invalid_selection[OF this] a show ?thesis
    by (simp add: fresh_def buffer_def)
qed

subsection \<open>Navigation\<close>

lemma find_first:
  "\<forall>q\<in>set before. \<not> P q \<Longrightarrow> P p \<Longrightarrow> List.find P (before @ p # rest) = Some p"
  by (induction before) simp_all

lemma find_mem: "List.find P xs = Some x \<Longrightarrow> x \<in> set xs"
  by (induction xs) (auto split: if_splits)

lemma next_pair_mem: "next_pair pairs c = Some p \<Longrightarrow> p \<in> set pairs"
proof -
  assume a: "next_pair pairs c = Some p"
  then have ne: "pairs \<noteq> []" by (auto simp: next_pair_def)
  show ?thesis
  proof (cases "List.find (\<lambda>(start, stop). start > c) pairs")
    case None
    with a ne have "p = pairs ! 0" by (simp add: next_pair_def)
    with ne show ?thesis by simp
  next
    case (Some q)
    with a ne have "p = q" by (simp add: next_pair_def)
    with find_mem[OF Some] show ?thesis by simp
  qed
qed

lemma previous_pair_mem: "previous_pair pairs c = Some p \<Longrightarrow> p \<in> set pairs"
proof -
  assume a: "previous_pair pairs c = Some p"
  then have ne: "pairs \<noteq> []" by (auto simp: previous_pair_def)
  show ?thesis
  proof (cases "List.find (\<lambda>(start, stop). start < c) (rev pairs)")
    case None
    with a ne have "p = last pairs" by (simp add: previous_pair_def)
    with ne show ?thesis by simp
  next
    case (Some q)
    with a ne have "p = q" by (simp add: previous_pair_def)
    with find_mem[OF Some] show ?thesis by simp
  qed
qed

lemma next_pair_Nil [simp]: "next_pair [] c = None"
  by (simp add: next_pair_def)

lemma previous_pair_Nil [simp]: "previous_pair [] c = None"
  by (simp add: previous_pair_def)

lemma next_pair_first:
  assumes "\<forall>q\<in>set before. fst q \<le> c" "c < fst p"
  shows "next_pair (before @ p # rest) c = Some p"
proof -
  have "List.find (\<lambda>(start, stop). c < start) (before @ p # rest) = Some p"
    using assms by (intro find_first) (auto simp: case_prod_beta)
  then show ?thesis by (simp add: next_pair_def)
qed

lemma next_pair_wrap:
  assumes "pairs \<noteq> []" "\<forall>q\<in>set pairs. fst q \<le> c"
  shows "next_pair pairs c = Some (hd pairs)"
proof -
  have "List.find (\<lambda>(start, stop). c < start) pairs = None"
    using assms(2) by (auto simp: find_None_iff)
  with assms(1) show ?thesis by (simp add: next_pair_def hd_conv_nth)
qed

lemma previous_pair_first:
  assumes "\<forall>q\<in>set rest. c \<le> fst q" "fst p < c"
  shows "previous_pair (before @ p # rest) c = Some p"
proof -
  have "List.find (\<lambda>(start, stop). start < c) (rev rest @ p # rev before) = Some p"
    using assms by (intro find_first) (auto simp: case_prod_beta)
  then show ?thesis by (simp add: previous_pair_def)
qed

lemma previous_pair_wrap:
  assumes "pairs \<noteq> []" "\<forall>q\<in>set pairs. c \<le> fst q"
  shows "previous_pair pairs c = Some (last pairs)"
proof -
  have "List.find (\<lambda>(start, stop). start < c) (rev pairs) = None"
    using assms(2) by (auto simp: find_None_iff)
  with assms(1) show ?thesis by (simp add: previous_pair_def)
qed

lemma next_then_previous:
  assumes sorted: "sorted_wrt (\<lambda>p q. fst p < fst q) pairs"
    and mem: "p \<in> set pairs"
    and nxt: "next_pair pairs (fst p) = Some n"
  shows "previous_pair pairs (fst n) = Some p"
proof -
  from mem obtain before rest where split: "pairs = before @ p # rest"
    by (auto simp: in_set_conv_decomp)
  from sorted have lo: "\<forall>q\<in>set before. fst q < fst p"
    and hi: "\<forall>q\<in>set rest. fst p < fst q"
    and srest: "sorted_wrt (\<lambda>p q. fst p < fst q) rest"
    unfolding split by (auto simp: sorted_wrt_append)
  show ?thesis
  proof (cases rest)
    case Nil
    have ne: "pairs \<noteq> []" by (simp add: split)
    have "\<forall>q\<in>set pairs. fst q \<le> fst p"
      using lo by (auto simp: split Nil)
    from next_pair_wrap[OF ne this] nxt have n: "n = hd pairs" by simp
    have "\<forall>q\<in>set pairs. fst (hd pairs) \<le> fst q"
      using sorted ne by (cases pairs) auto
    from previous_pair_wrap[OF ne this] show ?thesis
      by (simp add: n split Nil)
  next
    case (Cons a rest')
    have "next_pair ((before @ [p]) @ a # rest') (fst p) = Some a"
      using lo hi by (intro next_pair_first) (auto simp: Cons)
    with nxt have n: "n = a" by (simp add: split Cons)
    have "\<forall>q\<in>set (a # rest'). fst a \<le> fst q"
      using srest by (auto simp: Cons)
    moreover have "fst p < fst a" using hi by (simp add: Cons)
    ultimately have "previous_pair (before @ p # a # rest') (fst a) = Some p"
      by (rule previous_pair_first)
    then show ?thesis by (simp add: n split Cons)
  qed
qed

lemma previous_then_next:
  assumes sorted: "sorted_wrt (\<lambda>p q. fst p < fst q) pairs"
    and mem: "p \<in> set pairs"
    and prv: "previous_pair pairs (fst p) = Some n"
  shows "next_pair pairs (fst n) = Some p"
proof -
  from mem obtain before rest where split: "pairs = before @ p # rest"
    by (auto simp: in_set_conv_decomp)
  from sorted have lo: "\<forall>q\<in>set before. fst q < fst p"
    and hi: "\<forall>q\<in>set rest. fst p < fst q"
    and sbefore: "sorted_wrt (\<lambda>p q. fst p < fst q) before"
    unfolding split by (auto simp: sorted_wrt_append)
  show ?thesis
  proof (cases before rule: rev_cases)
    case Nil
    have ne: "pairs \<noteq> []" by (simp add: split)
    have "\<forall>q\<in>set pairs. fst p \<le> fst q"
      using hi by (auto simp: split Nil)
    from previous_pair_wrap[OF ne this] prv have n: "n = last pairs" by simp
    have "\<forall>q\<in>set pairs. fst q \<le> fst (last pairs)"
      using sorted ne by (cases pairs rule: rev_cases) (auto simp: sorted_wrt_append)
    from next_pair_wrap[OF ne this] show ?thesis
      by (simp add: n split Nil)
  next
    case (snoc before' b)
    have "previous_pair (before' @ b # p # rest) (fst p) = Some b"
      using lo hi by (intro previous_pair_first) (auto simp: snoc)
    with prv have n: "n = b" by (simp add: split snoc)
    have "\<forall>q\<in>set (before' @ [b]). fst q \<le> fst b"
      using sbefore by (auto simp: snoc sorted_wrt_append)
    moreover have "fst b < fst p" using lo by (simp add: snoc)
    ultimately have "next_pair ((before' @ [b]) @ p # rest) (fst b) = Some p"
      by (rule next_pair_first)
    then show ?thesis by (simp add: n split snoc)
  qed
qed

lemma navigate_to:
  assumes "p \<in> set (get_match_ranges w)"
  shows "tag_ranges sel (update_replace_button ((select_range (fst p) (snd p) w)\<lparr>statuslabel := []\<rparr>)) = [p]"
    and "insert_mark (update_replace_button ((select_range (fst p) (snd p) w)\<lparr>statuslabel := []\<rparr>)) = fst p"
    and "get_match_ranges (update_replace_button ((select_range (fst p) (snd p) w)\<lparr>statuslabel := []\<rparr>))
           = get_match_ranges w"
    and "selected_match (update_replace_button ((select_range (fst p) (snd p) w)\<lparr>statuslabel := []\<rparr>))
           = Some p"
    and "replace_this_button (update_replace_button ((select_range (fst p) (snd p) w)\<lparr>statuslabel := []\<rparr>))
           = enabled"
    and "buffer (update_replace_button ((select_range (fst p) (snd p) w)\<lparr>statuslabel := []\<rparr>)) = buffer w"
    and "statuslabel (update_replace_button ((select_range (fst p) (snd p) w)\<lparr>statuslabel := []\<rparr>)) = []"
proof -
  let ?s = "(select_range (fst p) (snd p) w)\<lparr>statuslabel := []\<rparr>"
  let ?w' = "update_replace_button ?s"
  from assms have b: "fst p < snd p" "snd p \<le> end_index w"
    using tag_ranges_bounds[of p find_highlight w] by (simp_all add: get_match_ranges_def)
  have sel_s: "tag_ranges sel ?s = [p]"
    using tag_ranges_select[OF b] tag_ranges_cong[of ?s "select_range (fst p) (snd p) w" sel]
    by simp
  have mr_s: "get_match_ranges ?s = get_match_ranges w"
    using match_ranges_cong[of ?s "select_range (fst p) (snd p) w"] by simp
  obtain a b where ab: "p = (a, b)" by (cases p)
  have sm_s: "selected_match ?s = Some p"
    using assms unfolding selected_match_def sel_s mr_s by (simp add: ab)
  show sel': "tag_ranges sel ?w' = [p]"
    using sel_s tag_ranges_cong[of ?w' ?s sel] by simp
  show "insert_mark ?w' = fst p"
    using b insert_mark_select[of "fst p" w "snd p"] by (simp add: select_range_def mark_set_insert_def)
  show mr: "get_match_ranges ?w' = get_match_ranges w"
    using mr_s match_ranges_cong[of ?w' ?s] by simp
  show "selected_match ?w' = Some p"
    using assms unfolding selected_match_def sel' mr by (simp add: ab)
  show "replace_this_button ?w' = enabled"
    using sm_s by (simp add: button_enabled_iff)
  show "buffer ?w' = buffer w"
    using buffer_cong[of ?w' "select_range (fst p) (snd p) w"] by simp
  show "statuslabel ?w' = []" by simp
qed

lemma go_to_next_match_Some:
  "next_pair (get_match_ranges w) (insert_mark w) = Some p \<Longrightarrow>
   go_to_next_match w
     = update_replace_button ((select_range (fst p) (snd p) w)\<lparr>statuslabel := []\<rparr>)"
  by (simp add: go_to_next_match_def case_prod_beta)

lemma go_to_previous_match_Some:
  "previous_pair (get_match_ranges w) (insert_mark w) = Some p \<Longrightarrow>
   go_to_previous_match w
     = update_replace_button ((select_range (fst p) (snd p) w)\<lparr>statuslabel := []\<rparr>)"
  by (simp add: go_to_previous_match_def case_prod_beta)

lemma go_to_next_match_Nil:
  "get_match_ranges w = [] \<Longrightarrow> go_to_next_match w = w\<lparr>statuslabel := ''No matches found!''\<rparr>"
  by (simp add: go_to_next_match_def)

lemma next_pair_Some_ex: "pairs \<noteq> [] \<Longrightarrow> \<exists>p. next_pair pairs c = Some p"
  by (simp add: next_pair_def split: option.splits)

lemma previous_pair_Some_ex: "pairs \<noteq> [] \<Longrightarrow> \<exists>p. previous_pair pairs c = Some p"
  by (simp add: previous_pair_def split: option.splits)

text \<open>
  Claim C10. When there is at least one match range, \<open>_go_to_next_match\<close> and
  \<open>_go_to_previous_match\<close> each pick one of the match ranges, leave the selection
  equal to exactly that range and the cursor at its start. The check that
  \<open>_replace_this_match\<close> makes then succeeds on that range, and the "Replace this match"
  button is enabled.
\<close>

theorem navigation_enables_replace:
  assumes "get_match_ranges w \<noteq> []"
  shows "(\<exists>p. next_pair (get_match_ranges w) (insert_mark w) = Some p
            \<and> p \<in> set (get_match_ranges w)
            \<and> tag_ranges sel (go_to_next_match w) = [p]
            \<and> insert_mark (go_to_next_match w) = fst p
            \<and> selected_match (go_to_next_match w) = Some p
            \<and> replace_this_button (go_to_next_match w) = enabled)
       \<and> (\<exists>p. previous_pair (get_match_ranges w) (insert_mark w) = Some p
            \<and> p \<in> set (get_match_ranges w)
            \<and> tag_ranges sel (go_to_previous_match w) = [p]
            \<and> insert_mark (go_to_previous_match w) = fst p
            \<and> selected_match (go_to_previous_match w) = Some p
            \<and> replace_this_button (go_to_previous_match w) = enabled)"
proof
  from next_pair_Some_ex[OF assms] obtain p
    where p: "next_pair (get_match_ranges w) (insert_mark w) = Some p" by blast
  note mem = next_pair_mem[OF p]
  from navigate_to[OF mem] p mem
  show "\<exists>p. next_pair (get_match_ranges w) (insert_mark w) = Some p
            \<and> p \<in> set (get_match_ranges w)
            \<and> tag_ranges sel (go_to_next_match w) = [p]
            \<and> insert_mark (go_to_next_match w) = fst p
            \<and> selected_match (go_to_next_match w) = Some p
            \<and> replace_this_button (go_to_next_match w) = enabled"
    unfolding go_to_next_match_Some[OF p] by blast
next
  from previous_pair_Some_ex[OF assms] obtain p
    where p: "previous_pair (get_match_ranges w) (insert_mark w) = Some p" by blast
  note mem = previous_pair_mem[OF p]
  from navigate_to[OF mem] p mem
  show "\<exists>p. previous_pair (get_match_ranges w) (insert_mark w) = Some p
            \<and> p \<in> set (get_match_ranges w)
            \<and> tag_ranges sel (go_to_previous_match w) = [p]
            \<and> insert_mark (go_to_previous_match w) = fst p
            \<and> selected_match (go_to_previous_match w) = Some p
            \<and> replace_this_button (go_to_previous_match w) = enabled"
    unfolding go_to_previous_match_Some[OF p] by blast
qed

theorem navigation_enables_replace_witness:
  "get_match_ranges (highlight_all_matches (fresh ''abc abc'' ''abc'' [])) \<noteq> []
   \<and> replace_this_button (go_to_next_match (highlight_all_matches (fresh ''abc abc'' ''abc'' [])))
       = enabled
   \<and> replace_this_button (go_to_previous_match (highlight_all_matches (fresh ''abc abc'' ''abc'' [])))
       = enabled"
proof -
  have a: "get_match_ranges (highlight_all_matches (fresh ''abc abc'' ''abc'' [])) \<noteq> []"
    by code_simp
  from navigation_enables_replace[OF a] a show ?thesis by blast
qed

text \<open>
  Claim C6. \<open>_go_to_next_match\<close> with no match range only sets the status label: no
  match is picked, and the selection and the cursor stay as they are. Otherwise it picks
  the first match range that starts strictly after the cursor, which is also the one with
  the least such start, and when no range starts after the cursor it picks the first match
  range; the range picked becomes the selection and the cursor moves to its start.
\<close>

theorem next_match_selects:
  "(get_match_ranges w = [] \<longrightarrow>
      next_pair (get_match_ranges w) (insert_mark w) = None
      \<and> go_to_next_match w = w\<lparr>statuslabel := ''No matches found!''\<rparr>)
   \<and> (\<forall>before p rest.
        get_match_ranges w = before @ p # rest
        \<and> (\<forall>q\<in>set before. fst q \<le> insert_mark w) \<and> insert_mark w < fst p \<longrightarrow>
          next_pair (get_match_ranges w) (insert_mark w) = Some p
          \<and> (\<forall>q\<in>set (get_match_ranges w). insert_mark w < fst q \<longrightarrow> fst p \<le> fst q)
          \<and> tag_ranges sel (go_to_next_match w) = [p]
          \<and> insert_mark (go_to_next_match w) = fst p)
   \<and> (get_match_ranges w \<noteq> [] \<and> (\<forall>q\<in>set (get_match_ranges w). fst q \<le> insert_mark w) \<longrightarrow>
        next_pair (get_match_ranges w) (insert_mark w) = Some (hd (get_match_ranges w))
        \<and> tag_ranges sel (go_to_next_match w) = [hd (get_match_ranges w)]
        \<and> insert_mark (go_to_next_match w) = fst (hd (get_match_ranges w)))"
proof (intro conjI allI impI)
  assume "get_match_ranges w = []"
  then show "next_pair (get_match_ranges w) (insert_mark w) = None"
    and "go_to_next_match w = w\<lparr>statuslabel := ''No matches found!''\<rparr>"
    by (simp_all add: go_to_next_match_Nil)
next
  fix before p rest
  assume a: "get_match_ranges w = before @ p # rest
        \<and> (\<forall>q\<in>set before. fst q \<le> insert_mark w) \<and> insert_mark w < fst p"
  then have split: "get_match_ranges w = before @ p # rest"
    and lo: "\<forall>q\<in>set before. fst q \<le> insert_mark w" and hi: "insert_mark w < fst p"
    by simp_all
  show np: "next_pair (get_match_ranges w) (insert_mark w) = Some p"
    unfolding split using lo hi by (rule next_pair_first)
  have mem: "p \<in> set (get_match_ranges w)" by (simp add: split)
  show "tag_ranges sel (go_to_next_match w) = [p]"
    and "insert_mark (go_to_next_match w) = fst p"
    unfolding go_to_next_match_Some[OF np] using navigate_to[OF mem] by simp_all
  have "\<forall>q\<in>set rest. fst p < fst q"
    using match_ranges_strict[of w] unfolding split by (auto simp: sorted_wrt_append)
  with lo show "\<forall>q\<in>set (get_match_ranges w). insert_mark w < fst q \<longrightarrow> fst p \<le> fst q"
    unfolding split by auto
next
  assume a: "get_match_ranges w \<noteq> [] \<and> (\<forall>q\<in>set (get_match_ranges w). fst q \<le> insert_mark w)"
  then have ne: "get_match_ranges w \<noteq> []"
    and all: "\<forall>q\<in>set (get_match_ranges w). fst q \<le> insert_mark w" by simp_all
  show np: "next_pair (get_match_ranges w) (insert_mark w) = Some (hd (get_match_ranges w))"
    using ne all by (rule next_pair_wrap)
  have mem: "hd (get_match_ranges w) \<in> set (get_match_ranges w)" using ne by simp
  show "tag_ranges sel (go_to_next_match w) = [hd (get_match_ranges w)]"
    and "insert_mark (go_to_next_match w) = fst (hd (get_match_ranges w))"
    unfolding go_to_next_match_Some[OF np] using navigate_to[OF mem] by simp_all
qed

theorem next_match_selects_witness:
  "get_match_ranges (highlight_all_matches (fresh ''abc abc'' ''abc'' [])) = [(0, 3), (4, 7)]
   \<and> insert_mark (highlight_all_matches (fresh ''abc abc'' ''abc'' [])) = 0
   \<and> tag_ranges sel (go_to_next_match (highlight_all_matches (fresh ''abc abc'' ''abc'' [])))
       = [(4, 7)]
   \<and> insert_mark (go_to_next_match (highlight_all_matches (fresh ''abc abc'' ''abc'' []))) = 4
   \<and> tag_ranges sel (go_to_next_match (go_to_next_match
         (highlight_all_matches (fresh ''abc abc'' ''abc'' [])))) = [(0, 3)]
   \<and> get_match_ranges (fresh ''hello'' ''xyz'' []) = []
   \<and> go_to_next_match (fresh ''hello'' ''xyz'' [])
       = (fresh ''hello'' ''xyz'' [])\<lparr>statuslabel := ''No matches found!''\<rparr>"
proof -
  let ?W = "highlight_all_matches (fresh ''abc abc'' ''abc'' [])"
  let ?E = "fresh ''hello'' ''xyz'' []"
  have r: "get_match_ranges ?W = [] @ (0, 3) # [(4, 7)]" and c: "insert_mark ?W = 0"
    by code_simp+
  have r2: "get_match_ranges ?W = [(0, 3)] @ (4, 7) # []"
    using r by simp
  have first: "tag_ranges sel (go_to_next_match ?W) = [(4, 7)]
             \<and> insert_mark (go_to_next_match ?W) = fst (4::nat, 7::nat)"
    using next_match_selects[of ?W, THEN conjunct2, THEN conjunct1, rule_format,
        of "[(0, 3)]" "(4, 7)" "[]"] r2 c
    by simp
  have r': "get_match_ranges (go_to_next_match ?W) = [(0, 3), (4, 7)]"
    and c': "insert_mark (go_to_next_match ?W) = 4"
    by code_simp+
  have wrap: "tag_ranges sel (go_to_next_match (go_to_next_match ?W)) = [(0, 3)]"
    using next_match_selects[of "go_to_next_match ?W", THEN conjunct2, THEN conjunct2] r' c'
    by simp
  have e: "get_match_ranges ?E = []"
    by code_simp
  have none: "go_to_next_match ?E = ?E\<lparr>statuslabel := ''No matches found!''\<rparr>"
    using next_match_selects[of ?E, THEN conjunct1] e by simp
  from r c first wrap e none show ?thesis by simp
qed

text \<open>
  Claim C8. With the cursor at the start of a match range \<open>p\<close>, going to the next match
  and then to the previous one selects \<open>p\<close> again and puts the cursor back at its start,
  and the match ranges are the same throughout; so does going to the previous match and
  then to the next one. This holds for any number of match ranges, in particular for more
  than one.
\<close>

theorem next_then_previous_returns:
  assumes "p \<in> set (get_match_ranges w)" and "insert_mark w = fst p"
  shows "tag_ranges sel (go_to_previous_match (go_to_next_match w)) = [p]
       \<and> insert_mark (go_to_previous_match (go_to_next_match w)) = fst p
       \<and> get_match_ranges (go_to_previous_match (go_to_next_match w)) = get_match_ranges w
       \<and> tag_ranges sel (go_to_next_match (go_to_previous_match w)) = [p]
       \<and> insert_mark (go_to_next_match (go_to_previous_match w)) = fst p
       \<and> get_match_ranges (go_to_next_match (go_to_previous_match w)) = get_match_ranges w"
proof -
  have ne: "get_match_ranges w \<noteq> []" using assms(1) by auto
  have there: "tag_ranges sel (go_to_previous_match (go_to_next_match w)) = [p]
       \<and> insert_mark (go_to_previous_match (go_to_next_match w)) = fst p
       \<and> get_match_ranges (go_to_previous_match (go_to_next_match w)) = get_match_ranges w"
  proof -
    from next_pair_Some_ex[OF ne] obtain n
      where n: "next_pair (get_match_ranges w) (insert_mark w) = Some n" by blast
    note nmem = next_pair_mem[OF n]
    let ?w1 = "go_to_next_match w"
    have w1: "get_match_ranges ?w1 = get_match_ranges w" "insert_mark ?w1 = fst n"
      unfolding go_to_next_match_Some[OF n] using navigate_to[OF nmem] by simp_all
    from n have "next_pair (get_match_ranges w) (fst p) = Some n" by (simp add: assms(2))
    from next_then_previous[OF match_ranges_strict assms(1) this]
    have ret: "previous_pair (get_match_ranges ?w1) (insert_mark ?w1) = Some p"
      by (simp add: w1)
    have pmem: "p \<in> set (get_match_ranges ?w1)" using assms(1) by (simp add: w1)
    show ?thesis
      unfolding go_to_previous_match_Some[OF ret] using navigate_to[OF pmem] w1 by simp
  qed
  have again: "tag_ranges sel (go_to_next_match (go_to_previous_match w)) = [p]
       \<and> insert_mark (go_to_next_match (go_to_previous_match w)) = fst p
       \<and> get_match_ranges (go_to_next_match (go_to_previous_match w)) = get_match_ranges w"
  proof -
    from previous_pair_Some_ex[OF ne] obtain n
      where n: "previous_pair (get_match_ranges w) (insert_mark w) = Some n" by blast
    note nmem = previous_pair_mem[OF n]
    let ?w1 = "go_to_previous_match w"
    have w1: "get_match_ranges ?w1 = get_match_ranges w" "insert_mark ?w1 = fst n"
      unfolding go_to_previous_match_Some[OF n] using navigate_to[OF nmem] by simp_all
    from n have "previous_pair (get_match_ranges w) (fst p) = Some n" by (simp add: assms(2))
    from previous_then_next[OF match_ranges_strict assms(1) this]
    have ret: "next_pair (get_match_ranges ?w1) (insert_mark ?w1) = Some p"
      by (simp add: w1)
    have pmem: "p \<in> set (get_match_ranges ?w1)" using assms(1) by (simp add: w1)
    show ?thesis
      unfolding go_to_next_match_Some[OF ret] using navigate_to[OF pmem] w1 by simp
  qed
  from there again show ?thesis by simp
qed

theorem next_then_previous_returns_witness:
  "(4, 7) \<in> set (get_match_ranges (go_to_next_match (highlight_all_matches (fresh ''abc abc'' ''abc'' []))))
   \<and> length (get_match_ranges (go_to_next_match (highlight_all_matches (fresh ''abc abc'' ''abc'' [])))) = 2
   \<and> insert_mark (go_to_next_match (highlight_all_matches (fresh ''abc abc'' ''abc'' []))) = 4
   \<and> tag_ranges sel (go_to_previous_match (go_to_next_match
        (go_to_next_match (highlight_all_matches (fresh ''abc abc'' ''abc'' []))))) = [(4, 7)]
   \<and> insert_mark (go_to_previous_match (go_to_next_match
        (go_to_next_match (highlight_all_matches (fresh ''abc abc'' ''abc'' []))))) = 4"
proof -
  let ?W = "go_to_next_match (highlight_all_matches (fresh ''abc abc'' ''abc'' []))"
  have r: "get_match_ranges ?W = [(0, 3), (4, 7)]" and c: "insert_mark ?W = 4"
    by code_simp+
  have m: "(4, 7) \<in> set (get_match_ranges ?W)" and i: "insert_mark ?W = fst (4::nat, 7::nat)"
    using r c by simp_all
  from next_then_previous_returns[OF m i] r c show ?thesis by simp
qed

subsection \<open>replace_this_match with a selected match\<close>

lemma buffer_replace:
  "buffer (replace s e new w) = take s (buffer w) @ new @ drop e (buffer w)"
  by (simp add: replace_def buffer_def Let_def take_map drop_map comp_def)

lemma end_index_replace:
  "s \<le> end_index w \<Longrightarrow> s \<le> end_index (replace s e new w)"
  by (simp add: replace_def end_index_def Let_def)

lemma replace_entry_tag_remove [simp]: "replace_entry (tag_remove t s e w) = replace_entry w"
  by (simp add: tag_remove_def)

lemma go_to_next_match_keeps:
  "buffer (go_to_next_match w) = buffer w"
  "get_match_ranges (go_to_next_match w) = get_match_ranges w"
proof -
  show "buffer (go_to_next_match w) = buffer w"
  proof (cases "next_pair (get_match_ranges w) (insert_mark w)")
    case None
    then show ?thesis by (simp add: go_to_next_match_def buffer_def)
  next
    case (Some p)
    from navigate_to(6)[OF next_pair_mem[OF Some]] show ?thesis
      by (simp add: go_to_next_match_Some[OF Some])
  qed
  show "get_match_ranges (go_to_next_match w) = get_match_ranges w"
  proof (cases "next_pair (get_match_ranges w) (insert_mark w)")
    case None
    then show ?thesis
      using match_ranges_cong[of "w\<lparr>statuslabel := ''No matches found!''\<rparr>" w]
      by (simp add: go_to_next_match_def)
  next
    case (Some p)
    from navigate_to(3)[OF next_pair_mem[OF Some]] show ?thesis
      by (simp add: go_to_next_match_Some[OF Some])
  qed
qed

lemma go_to_next_match_status:
  "statuslabel (go_to_next_match w)
     = (if get_match_ranges w = [] then ''No matches found!'' else [])"
proof (cases "next_pair (get_match_ranges w) (insert_mark w)")
  case None
  then have "get_match_ranges w = []"
    using next_pair_Some_ex[of "get_match_ranges w" "insert_mark w"] by auto
  then show ?thesis by (simp add: go_to_next_match_Nil)
next
  case (Some p)
  then have "get_match_ranges w \<noteq> []" by auto
  with navigate_to(7)[OF next_pair_mem[OF Some]] show ?thesis
    by (simp add: go_to_next_match_Some[OF Some])
qed

lemma no_more_matches_keeps:
  "chars (no_more_matches w) = chars w"
  "insert_mark (no_more_matches w) = insert_mark w"
  by (simp_all add: no_more_matches_def)

lemma selected_matchD:
  assumes "selected_match w = Some p"
  shows "tag_ranges sel w = [p]" and "p \<in> set (get_match_ranges w)"
  using assms by (auto simp: selected_match_def split: list.splits if_splits)

lemma removed_match_not_selected:
  assumes "selected_match w = Some (s, e)"
  shows "selected_match (tag_remove find_highlight s e w) = None"
proof -
  let ?w1 = "tag_remove find_highlight s e w"
  note d = selected_matchD[OF assms]
  from d(2) have b: "s < e" "e \<le> end_index w"
    using tag_ranges_bounds[of "(s, e)" find_highlight w] by (simp_all add: get_match_ranges_def)
  have "\<not> flags find_highlight ?w1 ! s"
    using b by (simp add: flags_def chars_tag_remove_nth end_index_def)
  then have "(s, e) \<notin> set (get_match_ranges ?w1)"
    using runs_start_tagged[of s e 0 "flags find_highlight ?w1"]
    by (auto simp: get_match_ranges_def tag_ranges_def)
  moreover have "tag_ranges sel ?w1 = [(s, e)]"
    using d(1) by (simp add: tag_ranges_def flags_tag_remove_other)
  ultimately show ?thesis by (simp add: selected_match_def)
qed

text \<open>
  Claim C4. When the selection is exactly one match range \<open>(s, e)\<close>,
  \<open>_replace_this_match\<close> is the composition, in this order, of: removing the
  highlight from \<open>s\<close> to \<open>e\<close>; recomputing the button (which is disabled at that
  point, the selected range being no match range any more); replacing the text from \<open>s\<close>
  to \<open>e\<close> by the replace entry's text; setting the cursor to \<open>s\<close>; going to the next
  match; and rewriting the status. The buffer afterwards is the old one with the range
  replaced, and the status is "No more matches." exactly when no match range is left,
  and empty otherwise: never "No matches found!".
\<close>

theorem replace_this_match_steps:
  assumes "selected_match w = Some (s, e)"
  shows "replace_this_match w
           = no_more_matches (go_to_next_match (mark_set_insert s
               (replace s e (replace_entry w)
                  (update_replace_button (tag_remove find_highlight s e w)))))
       \<and> replace_this_button (update_replace_button (tag_remove find_highlight s e w)) = disabled
       \<and> buffer (replace_this_match w) = take s (buffer w) @ replace_entry w @ drop e (buffer w)
       \<and> insert_mark (mark_set_insert s (replace s e (replace_entry w)
            (update_replace_button (tag_remove find_highlight s e w)))) = s
       \<and> statuslabel (replace_this_match w)
           = (if get_match_ranges (replace_this_match w) = [] then ''No more matches.'' else [])"
proof -
  let ?w1 = "tag_remove find_highlight s e w"
  let ?w2 = "update_replace_button ?w1"
  let ?w3 = "replace s e (replace_entry w) ?w2"
  let ?w4 = "mark_set_insert s ?w3"
  let ?w5 = "go_to_next_match ?w4"
  have eq: "replace_this_match w = no_more_matches ?w5"
    using assms by (simp add: replace_this_match_def Let_def)
  from selected_matchD(2)[OF assms] have b: "s < e" "e \<le> end_index w"
    using tag_ranges_bounds[of "(s, e)" find_highlight w] by (simp_all add: get_match_ranges_def)
  have button: "replace_this_button ?w2 = disabled"
    using removed_match_not_selected[OF assms] button_enabled_iff[of ?w1]
    by (cases "replace_this_button ?w2") simp_all
  have "buffer ?w2 = buffer w"
    using buffer_cong[of ?w2 ?w1] by simp
  then have buf3: "buffer ?w3 = take s (buffer w) @ replace_entry w @ drop e (buffer w)"
    by (simp add: buffer_replace)
  have buf4: "buffer ?w4 = buffer ?w3"
    by (rule buffer_cong) (simp add: mark_set_insert_def)
  have buf: "buffer (replace_this_match w) = take s (buffer w) @ replace_entry w @ drop e (buffer w)"
    unfolding eq using buffer_cong[OF no_more_matches_keeps(1), of ?w5]
    by (simp add: go_to_next_match_keeps buf4 buf3)
  have "s \<le> end_index ?w2" using b by (simp add: end_index_def)
  then have cursor: "insert_mark ?w4 = s"
    using end_index_replace[of s ?w2 e "replace_entry w"] by (simp add: mark_set_insert_def)
  have mr: "get_match_ranges (replace_this_match w) = get_match_ranges ?w4"
    unfolding eq using match_ranges_cong[OF no_more_matches_keeps(1), of ?w5]
    by (simp add: go_to_next_match_keeps)
  have status: "statuslabel (replace_this_match w)
           = (if get_match_ranges (replace_this_match w) = [] then ''No more matches.'' else [])"
    unfolding mr unfolding eq by (simp add: no_more_matches_def go_to_next_match_status)
  from eq button buf cursor status show ?thesis by simp
qed


theorem replace_this_match_steps_witness:
  "selected_match (go_to_next_match (highlight_all_matches (fresh ''abc abc'' ''abc'' ''xy'')))
     = Some (4, 7)
   \<and> buffer (replace_this_match
        (go_to_next_match (highlight_all_matches (fresh ''abc abc'' ''abc'' ''xy'')))) = ''abc xy''
   \<and> get_match_ranges (replace_this_match
        (go_to_next_match (highlight_all_matches (fresh ''abc abc'' ''abc'' ''xy'')))) = [(0, 3)]
   \<and> statuslabel (replace_this_match
        (go_to_next_match (highlight_all_matches (fresh ''abc abc'' ''abc'' ''xy'')))) = []
   \<and> selected_match (go_to_next_match (highlight_all_matches (fresh ''abcd'' ''bc'' ''xy'')))
     = Some (1, 3)
   \<and> buffer (replace_this_match
        (go_to_next_match (highlight_all_matches (fresh ''abcd'' ''bc'' ''xy'')))) = ''axyd''
   \<and> statuslabel (replace_this_match
        (go_to_next_match (highlight_all_matches (fresh ''abcd'' ''bc'' ''xy''))))
       = ''No more matches.''"
proof -
  let ?W = "go_to_next_match (highlight_all_matches (fresh ''abc abc'' ''abc'' ''xy''))"
  let ?V = "go_to_next_match (highlight_all_matches (fresh ''abcd'' ''bc'' ''xy''))"
  have a: "selected_match ?W = Some (4, 7)"
    by code_simp
  have r: "get_match_ranges (replace_this_match ?W) = [(0, 3)]"
    by code_simp
  have bw: "buffer ?W = ''abc abc''" and rw: "replace_entry ?W = ''xy''"
    by code_simp+
  have c: "selected_match ?V = Some (1, 3)"
    by code_simp
  have q: "get_match_ranges (replace_this_match ?V) = []"
    by code_simp
  have bv: "buffer ?V = ''abcd''" and rv: "replace_entry ?V = ''xy''"
    by code_simp+
  note w = replace_this_match_steps[OF a]
  note v = replace_this_match_steps[OF c]
  have "buffer (replace_this_match ?W) = take 4 (buffer ?W) @ replace_entry ?W @ drop 7 (buffer ?W)"
    by (rule w[THEN conjunct2, THEN conjunct2, THEN conjunct1])
  then have wb: "buffer (replace_this_match ?W) = ''abc xy''"
    unfolding bw rw by simp
  have "statuslabel (replace_this_match ?W)
          = (if get_match_ranges (replace_this_match ?W) = [] then ''No more matches.'' else [])"
    by (rule w[THEN conjunct2, THEN conjunct2, THEN conjunct2, THEN conjunct2])
  then have ws: "statuslabel (replace_this_match ?W) = []"
    unfolding r by simp
  have "buffer (replace_this_match ?V) = take 1 (buffer ?V) @ replace_entry ?V @ drop 3 (buffer ?V)"
    by (rule v[THEN conjunct2, THEN conjunct2, THEN conjunct1])
  then have vb: "buffer (replace_this_match ?V) = ''axyd''"
    unfolding bv rv by simp
  have "statuslabel (replace_this_match ?V)
          = (if get_match_ranges (replace_this_match ?V) = [] then ''No more matches.'' else [])"
    by (rule v[THEN conjunct2, THEN conjunct2, THEN conjunct2, THEN conjunct2])
  then have vs: "statuslabel (replace_this_match ?V) = ''No more matches.''"
    unfolding q by simp
  show ?thesis
    by (intro conjI a wb r ws c vb vs)
qed

end
